theory Spec2Isabelle
  imports Main "HOL-Library.Sublist"
begin

section \<open>Response paths and path keys (context.ts)\<close>

text \<open>
  A \<open>ResponsePath\<close> is a chain of steps linked by \<open>prev\<close>. The \<open>key\<close> of a step is a
  string (a field name or alias) or a number (an index into a list); \<open>KUndef\<close> stands for
  a step whose \<open>key\<close> property is \<open>undefined\<close> at run time. List indices are natural
  numbers.
\<close>

datatype key = KStr string | KNum nat | KUndef

datatype path = Path (key: key) (prev: "path option")

text \<open>\<open>typeof path.key === "number"\<close>\<close>

fun isArrayPath :: "path \<Rightarrow> bool" where
  "isArrayPath (Path (KNum n) p) = True"
| "isArrayPath (Path k p) = False"

text \<open>Decimal rendering of a number, as a template literal or \<open>join\<close> converts it.\<close>

definition digit_char :: "nat \<Rightarrow> char" where
  "digit_char d = ''0123456789'' ! d"

function string_of_nat :: "nat \<Rightarrow> string" where
  "string_of_nat n =
     (if n < 10 then [digit_char n]
      else string_of_nat (n div 10) @ [digit_char (n mod 10)])"
  by pat_completeness auto
termination
  by (relation "measure (\<lambda>n. n)") auto

declare string_of_nat.simps [simp del]

text \<open>
  The text a key contributes inside the template literal \<open>`[${current.key}]`\<close>
  (the conversion \<open>String(key)\<close>).
\<close>

fun key_text :: "key \<Rightarrow> string" where
  "key_text (KStr s) = s"
| "key_text (KNum n) = string_of_nat n"
| "key_text KUndef = ''undefined''"

text \<open>
  One element pushed on \<open>segments\<close>: the bracketed index for an array step, the raw key
  otherwise. An element is \<open>None\<close> when the pushed value is \<open>undefined\<close>.
\<close>

fun segment :: "path \<Rightarrow> string option" where
  "segment current =
     (if isArrayPath current then Some (''['' @ key_text (key current) @ '']'')
      else (case key current of
              KStr s \<Rightarrow> Some s
            | KNum n \<Rightarrow> Some (string_of_nat n)
            | KUndef \<Rightarrow> None))"

text \<open>The \<open>while (current != null)\<close> loop: segments are pushed from the leaf to the root.\<close>

fun segments :: "path option \<Rightarrow> string option list" where
  "segments None = []"
| "segments (Some (Path k p)) = segment (Path k p) # segments p"

text \<open>
  \<open>Array.prototype.join\<close>: the separator goes between every two elements, and an
  \<open>undefined\<close> element is rendered as the empty string.
\<close>

fun element_text :: "string option \<Rightarrow> string" where
  "element_text None = []"
| "element_text (Some s) = s"

fun join :: "string \<Rightarrow> string option list \<Rightarrow> string" where
  "join sep [] = []"
| "join sep [x] = element_text x"
| "join sep (x # y # ys) = element_text x @ sep @ join sep (y # ys)"

definition buildPath :: "path option \<Rightarrow> string" where
  "buildPath p = join ''.'' (rev (segments p))"


section \<open>The span registry attached to the request context (context.ts)\<close>

text \<open>
  A span is an object of the tracer; the model refers to it by its position in the
  tracer's list of started spans.
\<close>

type_synonym span = nat

datatype error = TypeError string | Error string

text \<open>
  Of the host's context object the model keeps the three properties that
  \<open>addContextHelpers\<close> defines: the map stored under the private symbol \<open>SPANS\<close>
  (\<open>None\<close> while the property is not defined) and whether \<open>getSpanByPath\<close> and
  \<open>addSpan\<close> are functions. The symbol is private to the module, so the three
  \<open>Object.defineProperty\<close> calls are taken to succeed, and a method of either name is
  taken to be the one defined here.
\<close>

record SpanContext =
  SPANS :: "(string \<rightharpoonup> span) option"
  has_getSpanByPath :: bool
  has_addSpan :: bool

definition isSpanContext :: "SpanContext \<Rightarrow> bool" where
  "isSpanContext obj = (has_getSpanByPath obj \<and> has_addSpan obj)"

definition addContextHelpers :: "SpanContext \<Rightarrow> SpanContext" where
  "addContextHelpers obj =
     (if isSpanContext obj then obj
      else obj\<lparr>SPANS := Some Map.empty, has_getSpanByPath := True, has_addSpan := True\<rparr>)"

text \<open>
  \<open>GraphQLResolveInfo\<close>, as far as the code reads it: \<open>fieldName\<close>, the alias of the
  field nodes, \<open>path\<close>, and the \<open>span\<close> property that \<open>willResolveField\<close> writes. The
  unit tests pass objects without \<open>path\<close>, \<open>fieldName\<close> or \<open>fieldNodes\<close>, so all are
  optional.
\<close>

record fieldNode =
  fn_alias :: "string option"

record info =
  fieldName :: "string option"
  fieldNodes :: "fieldNode list option"
  path :: "path option"
  span :: "span option"

text \<open>
  \<open>context.getSpanByPath(path)\<close>: a \<open>TypeError\<close> when the context has no such method
  (or no map to read), otherwise \<open>obj[SPANS].get(buildPath(isArrayPath(path) ? path.prev : path))\<close>.
\<close>

definition getSpanByPath :: "SpanContext \<Rightarrow> path \<Rightarrow> error + span option" where
  "getSpanByPath obj p =
     (if \<not> has_getSpanByPath obj then Inl (TypeError ''context.getSpanByPath is not a function'')
      else case SPANS obj of
             None \<Rightarrow> Inl (TypeError ''Cannot read properties of undefined'')
           | Some m \<Rightarrow> Inr (m (buildPath (if isArrayPath p then prev p else Some p))))"

text \<open>\<open>context.addSpan(span, info)\<close>: \<open>obj[SPANS].set(buildPath(info.path), span)\<close>.\<close>

definition addSpan :: "SpanContext \<Rightarrow> span \<Rightarrow> info \<Rightarrow> error + SpanContext" where
  "addSpan obj sp i =
     (if \<not> has_addSpan obj then Inl (TypeError ''context.addSpan is not a function'')
      else case SPANS obj of
             None \<Rightarrow> Inl (TypeError ''Cannot read properties of undefined'')
           | Some m \<Rightarrow> Inr (obj\<lparr>SPANS := Some (m(buildPath (path i) \<mapsto> sp))\<rparr>))"

section \<open>The tracer\<close>

text \<open>
  The tracer is the injected collaborator. The model records what the extension asks of
  it: every started span with its name, kind, the span context it continues, its links
  and whether \<open>end()\<close> was called. The span context of a span of this tracer is
  \<open>OfSpan\<close>; one extracted from request headers is \<open>Remote\<close>.
\<close>

datatype trace_context = Remote string | OfSpan span

datatype span_kind = UNSPECIFIED | SERVER | CLIENT

record trace_options =
  name :: string
  kind :: span_kind
  spanContext :: "trace_context option"

record span_data =
  options :: trace_options
  links :: "span list"
  ended :: bool

type_synonym store = "span_data list"

record tracer =
  propagation_extract :: "(string \<Rightarrow> string option) \<Rightarrow> trace_context option"

definition startRootSpan :: "store \<Rightarrow> trace_options \<Rightarrow> store \<times> span" where
  "startRootSpan st opts = (st @ [\<lparr>options = opts, links = [], ended = False\<rparr>], length st)"

definition addLink :: "store \<Rightarrow> span \<Rightarrow> span \<Rightarrow> store" where
  "addLink st sp target =
     (if sp < length st then st[sp := (st ! sp)\<lparr>links := links (st ! sp) @ [target]\<rparr>] else st)"

definition end_span :: "store \<Rightarrow> span \<Rightarrow> store" where
  "end_span st sp = (if sp < length st then st[sp := (st ! sp)\<lparr>ended := True\<rparr>] else st)"

definition is_ended :: "store \<Rightarrow> span \<Rightarrow> bool" where
  "is_ended st sp = (sp < length st \<and> ended (st ! sp))"


section \<open>The extension (index.ts)\<close>

text \<open>
  Values of the host (\<open>source\<close>, \<open>args\<close>, a resolver's result) are of an arbitrary type
  \<open>'v\<close>. A hook is observed through whether it returns or throws; the two predicates
  are boolean functions of their arguments.
\<close>

datatype hook_result = Returns | Throws error

record request =
  headers :: "(string \<rightharpoonup> string) option"

record RequestStart =
  request :: "request option"
  queryString :: "string option"

record 'v InitOptions =
  opt_tracer :: "tracer option"
  opt_onFieldResolveFinish :: "(error option \<Rightarrow> 'v \<Rightarrow> span \<Rightarrow> hook_result) option"
  opt_onFieldResolve :: "('v \<Rightarrow> 'v \<Rightarrow> SpanContext \<Rightarrow> info \<Rightarrow> hook_result) option"
  opt_shouldTraceRequest :: "(RequestStart \<Rightarrow> bool) option"
  opt_shouldTraceFieldResolver :: "('v \<Rightarrow> 'v \<Rightarrow> SpanContext \<Rightarrow> info \<Rightarrow> bool) option"
  opt_onRequestResolve :: "(span \<Rightarrow> RequestStart \<Rightarrow> hook_result) option"

record 'v OpencensusExtension =
  tracer :: tracer
  requestSpan :: "span option"
  onFieldResolveFinish :: "(error option \<Rightarrow> 'v \<Rightarrow> span \<Rightarrow> hook_result) option"
  onFieldResolve :: "('v \<Rightarrow> 'v \<Rightarrow> SpanContext \<Rightarrow> info \<Rightarrow> hook_result) option"
  shouldTraceRequest :: "RequestStart \<Rightarrow> bool"
  shouldTraceFieldResolver :: "'v \<Rightarrow> 'v \<Rightarrow> SpanContext \<Rightarrow> info \<Rightarrow> bool"
  onRequestResolve :: "span \<Rightarrow> RequestStart \<Rightarrow> hook_result"

definition alwaysTrue :: "'a \<Rightarrow> bool" where
  "alwaysTrue x = True"

definition emptyFunction :: "span \<Rightarrow> RequestStart \<Rightarrow> hook_result" where
  "emptyFunction sp infos = Returns"

text \<open>The constructor: it throws without a tracer, and fills in the defaults.\<close>

definition new_OpencensusExtension :: "'v InitOptions \<Rightarrow> error + 'v OpencensusExtension" where
  "new_OpencensusExtension opts =
     (case opt_tracer opts of
        None \<Rightarrow> Inl (Error ''ApolloOpencensus needs a tracer, please provide it to the constructor. e.g. new ApolloOpencensus({ tracer })'')
      | Some t \<Rightarrow> Inr
          \<lparr>tracer = t,
           requestSpan = None,
           onFieldResolveFinish = opt_onFieldResolveFinish opts,
           onFieldResolve = opt_onFieldResolve opts,
           shouldTraceRequest =
             (case opt_shouldTraceRequest opts of None \<Rightarrow> (\<lambda>infos. alwaysTrue infos) | Some f \<Rightarrow> f),
           shouldTraceFieldResolver =
             (case opt_shouldTraceFieldResolver opts of
                None \<Rightarrow> (\<lambda>source args ctx i. alwaysTrue i) | Some f \<Rightarrow> f),
           onRequestResolve =
             (case opt_onRequestResolve opts of None \<Rightarrow> emptyFunction | Some f \<Rightarrow> f)\<rparr>)"

text \<open>
  \<open>getFieldName\<close>: the alias of the first field node if there is one, else
  \<open>info.fieldName || "field"\<close> (an empty field name is falsy).
\<close>

definition getFieldName :: "info \<Rightarrow> string" where
  "getFieldName i =
     (case fieldNodes i of
        Some (n # ns) \<Rightarrow>
          (case fn_alias n of
             Some a \<Rightarrow> a
           | None \<Rightarrow> (case fieldName i of None \<Rightarrow> ''field'' | Some f \<Rightarrow> if f = [] then ''field'' else f))
      | _ \<Rightarrow> (case fieldName i of None \<Rightarrow> ''field'' | Some f \<Rightarrow> if f = [] then ''field'' else f))"

subsection \<open>requestDidStart\<close>

text \<open>
  The closure returned by \<open>requestDidStart\<close> is \<open>() => { rootSpan.end(); }\<close>; it is
  represented by the span it captured. Calling it is given the extension and the
  tracer's spans and returns both, so that what it leaves alone is visible.
\<close>

datatype request_finish = RequestFinish span

record 'v request_result =
  rr_extension :: "'v OpencensusExtension"
  rr_store :: store
  rr_outcome :: "error + request_finish option"

definition requestDidStart ::
  "'v OpencensusExtension \<Rightarrow> store \<Rightarrow> RequestStart \<Rightarrow> 'v request_result" where
  "requestDidStart this st infos =
     (if \<not> shouldTraceRequest this infos
      then \<lparr>rr_extension = this, rr_store = st, rr_outcome = Inr None\<rparr>
      else
        let getter = (\<lambda>h n. h n);
            extracted =
              (case request infos of
                 None \<Rightarrow> None
               | Some r \<Rightarrow>
                   (case headers r of
                      None \<Rightarrow> None
                    | Some h \<Rightarrow> propagation_extract (tracer this) (getter h)));
            traceOptions = \<lparr>name = ''request'', kind = SERVER, spanContext = extracted\<rparr>;
            (st1, rootSpan) = startRootSpan st traceOptions
        in case onRequestResolve this rootSpan infos of
             Throws e \<Rightarrow> \<lparr>rr_extension = this, rr_store = st1, rr_outcome = Inl e\<rparr>
           | Returns \<Rightarrow>
               \<lparr>rr_extension = this\<lparr>requestSpan := Some rootSpan\<rparr>,
                rr_store = st1,
                rr_outcome = Inr (Some (RequestFinish rootSpan))\<rparr>)"

fun call_request_finish ::
  "request_finish \<Rightarrow> 'v OpencensusExtension \<times> store \<Rightarrow> 'v OpencensusExtension \<times> store" where
  "call_request_finish (RequestFinish rootSpan) (this, st) = (this, end_span st rootSpan)"

subsection \<open>willResolveField\<close>

text \<open>\<open>info.path && info.path.prev\<close>\<close>

definition parent_path :: "info \<Rightarrow> path option" where
  "parent_path i = (case path i of None \<Rightarrow> None | Some p \<Rightarrow> prev p)"

text \<open>
  The condition of the first \<open>if\<close>, with the short circuit of \<open>||\<close> and \<open>&&\<close>: the
  context's \<open>getSpanByPath\<close> is called only when the two tests before it are false and
  the node has a parent. The result is \<open>Inl\<close> when that call throws.
\<close>

definition not_traced ::
  "'v OpencensusExtension \<Rightarrow> 'v \<Rightarrow> 'v \<Rightarrow> SpanContext \<Rightarrow> info \<Rightarrow> error + bool" where
  "not_traced this source args ctx i =
     (if requestSpan this = None then Inr True
      else if \<not> shouldTraceFieldResolver this source args ctx i then Inr True
      else case parent_path i of
             None \<Rightarrow> Inr False
           | Some pp \<Rightarrow>
               (case getSpanByPath ctx pp of
                  Inl e \<Rightarrow> Inl e
                | Inr found \<Rightarrow> Inr (found = None)))"

text \<open>
  The closure returned by \<open>willResolveField\<close> captures \<open>this\<close> and the span; it is
  represented by the span.
\<close>

datatype field_finish = FieldFinish span

record field_result =
  fr_store :: store
  fr_context :: SpanContext
  fr_info :: info
  fr_outcome :: "error + field_finish option"

definition willResolveField ::
  "'v OpencensusExtension \<Rightarrow> store \<Rightarrow> 'v \<Rightarrow> 'v \<Rightarrow> SpanContext \<Rightarrow> info \<Rightarrow> field_result" where
  "willResolveField this st source args ctx i =
     (case not_traced this source args ctx i of
        Inl e \<Rightarrow> \<lparr>fr_store = st, fr_context = ctx, fr_info = i, fr_outcome = Inl e\<rparr>
      | Inr True \<Rightarrow> \<lparr>fr_store = st, fr_context = ctx, fr_info = i, fr_outcome = Inr None\<rparr>
      | Inr False \<Rightarrow>
          let ctx1 = addContextHelpers ctx;
              nm = getFieldName i
          in case (case parent_path i of
                     Some pp \<Rightarrow> getSpanByPath ctx1 pp
                   | None \<Rightarrow> Inr (requestSpan this)) of
               Inl e \<Rightarrow> \<lparr>fr_store = st, fr_context = ctx1, fr_info = i, fr_outcome = Inl e\<rparr>
             | Inr parentSpan \<Rightarrow>
                 let traceOptions =
                       \<lparr>name = nm, kind = SERVER, spanContext = map_option OfSpan parentSpan\<rparr>;
                     (st1, sp) = startRootSpan st traceOptions;
                     st2 = (case parentSpan of None \<Rightarrow> st1 | Some ps \<Rightarrow> addLink st1 sp ps)
                 in case addSpan ctx1 sp i of
                      Inl e \<Rightarrow> \<lparr>fr_store = st2, fr_context = ctx1, fr_info = i, fr_outcome = Inl e\<rparr>
                    | Inr ctx2 \<Rightarrow>
                        let i1 = i\<lparr>span := Some sp\<rparr>
                        in case (case onFieldResolve this of
                                   None \<Rightarrow> Returns
                                 | Some hook \<Rightarrow> hook source args ctx2 i1) of
                             Throws e \<Rightarrow>
                               \<lparr>fr_store = st2, fr_context = ctx2, fr_info = i1, fr_outcome = Inl e\<rparr>
                           | Returns \<Rightarrow>
                               \<lparr>fr_store = st2, fr_context = ctx2, fr_info = i1,
                                fr_outcome = Inr (Some (FieldFinish sp))\<rparr>)"

text \<open>
  Calling the finish closure with \<open>(error, result)\<close>: the hook, if configured, then
  \<open>span.end()\<close>. A hook that throws leaves the closure at once.
\<close>

fun call_field_finish ::
  "'v OpencensusExtension \<Rightarrow> field_finish \<Rightarrow> error option \<Rightarrow> 'v \<Rightarrow> store \<Rightarrow> store \<times> error option" where
  "call_field_finish this (FieldFinish sp) err result st =
     (case onFieldResolveFinish this of
        None \<Rightarrow> (end_span st sp, None)
      | Some hook \<Rightarrow>
          (case hook err result sp of
             Throws e \<Rightarrow> (st, Some e)
           | Returns \<Rightarrow> (end_span st sp, None)))"


section \<open>A request as a sequence of field visits\<close>

text \<open>
  The host calls \<open>willResolveField\<close> once per visited field, always with the same
  context object. A call that throws leaves what it had changed before it threw.
\<close>

record 'v visit =
  v_source :: 'v
  v_args :: 'v
  v_info :: info

definition visit_field ::
  "'v OpencensusExtension \<Rightarrow> store \<times> SpanContext \<Rightarrow> 'v visit \<Rightarrow> field_result" where
  "visit_field this w v = willResolveField this (fst w) (v_source v) (v_args v) (snd w) (v_info v)"

text \<open>The tracer's spans and the context after a sequence of visits.\<close>

fun exec ::
  "'v OpencensusExtension \<Rightarrow> store \<times> SpanContext \<Rightarrow> 'v visit list \<Rightarrow> store \<times> SpanContext" where
  "exec this w [] = w"
| "exec this w (v # vs) =
     exec this (fr_store (visit_field this w v), fr_context (visit_field this w v)) vs"

text \<open>The result of every visit of the sequence, in order.\<close>

fun run ::
  "'v OpencensusExtension \<Rightarrow> store \<times> SpanContext \<Rightarrow> 'v visit list \<Rightarrow> field_result list" where
  "run this w [] = []"
| "run this w (v # vs) =
     visit_field this w v
       # run this (fr_store (visit_field this w v), fr_context (visit_field this w v)) vs"

text \<open>Several \<open>addSpan\<close> calls in a row; the first that throws ends the sequence.\<close>

fun addSpans :: "SpanContext \<Rightarrow> (span \<times> info) list \<Rightarrow> error + SpanContext" where
  "addSpans obj [] = Inr obj"
| "addSpans obj ((sp, i) # ws) =
     (case addSpan obj sp i of Inl e \<Rightarrow> Inl e | Inr obj1 \<Rightarrow> addSpans obj1 ws)"

section \<open>Notions used to state the properties\<close>

text \<open>The keys of a chain, from the leaf to the root.\<close>

fun chain_keys :: "path option \<Rightarrow> key list" where
  "chain_keys None = []"
| "chain_keys (Some (Path k p)) = k # chain_keys p"

text \<open>The segment that a key contributes to the path key.\<close>

fun key_segment :: "key \<Rightarrow> string option" where
  "key_segment (KStr s) = Some s"
| "key_segment (KNum n) = Some (''['' @ string_of_nat n @ '']'')"
| "key_segment KUndef = None"

text \<open>What the registry of a context holds under a path key (nothing without a registry).\<close>

definition registered :: "SpanContext \<Rightarrow> string \<Rightarrow> span option" where
  "registered obj k = (case SPANS obj of None \<Rightarrow> None | Some m \<Rightarrow> m k)"

text \<open>
  A context is well formed when the two methods come with the map they read: this holds
  of a host object that has neither method, and of every context that
  \<open>addContextHelpers\<close> returned.
\<close>

definition well_formed :: "SpanContext \<Rightarrow> bool" where
  "well_formed obj = (isSpanContext obj \<longrightarrow> SPANS obj \<noteq> None)"

text \<open>
  \<open>at_or_below m n\<close>: the chain \<open>m\<close> is the node \<open>n\<close> or passes through it, that is,
  \<open>m\<close> denotes \<open>n\<close> or a descendant of \<open>n\<close>.
\<close>

fun at_or_below :: "path option \<Rightarrow> path \<Rightarrow> bool" where
  "at_or_below None n = False"
| "at_or_below (Some (Path k p)) n = (Path k p = n \<or> at_or_below p n)"

text \<open>
  Keys as GraphQL produces them: a field name or alias is not empty, has no dot and does
  not start with a bracket (GraphQL names consist of letters, digits and underscores);
  an index is any number. Every step of a response path has a key.
\<close>

fun valid_key :: "key \<Rightarrow> bool" where
  "valid_key (KStr s) = (s \<noteq> [] \<and> CHR ''.'' \<notin> set s \<and> hd s \<noteq> CHR ''['')"
| "valid_key (KNum n) = True"
| "valid_key KUndef = False"

fun valid_chain :: "path option \<Rightarrow> bool" where
  "valid_chain None = True"
| "valid_chain (Some (Path k p)) = (valid_key k \<and> valid_chain p)"

text \<open>A field node: its own key is a name.\<close>

fun field_node :: "path \<Rightarrow> bool" where
  "field_node (Path (KStr s) p) = True"
| "field_node (Path k p) = False"

text \<open>
  Nothing is registered at a node or below it: every valid chain through \<open>n\<close> has no
  entry in the registry of the context.
\<close>

definition unregistered_below :: "SpanContext \<Rightarrow> path \<Rightarrow> bool" where
  "unregistered_below obj n =
     (\<forall>q. at_or_below q n \<and> valid_chain q \<longrightarrow> registered obj (buildPath q) = None)"

section \<open>Concrete inputs\<close>

text \<open>The chain a, three, 1, four of a list field \<open>three\<close> under \<open>a\<close>.\<close>

definition ex_a :: path where
  "ex_a = Path (KStr ''a'') None"

definition ex_three :: path where
  "ex_three = Path (KStr ''three'') (Some ex_a)"

definition ex_element :: path where
  "ex_element = Path (KNum 1) (Some ex_three)"

definition ex_four :: path where
  "ex_four = Path (KStr ''four'') (Some ex_element)"

text \<open>A second top-level field.\<close>

definition ex_b :: path where
  "ex_b = Path (KStr ''b'') None"

text \<open>A step without a key below \<open>a\<close>.\<close>

definition ex_keyless :: path where
  "ex_keyless = Path KUndef (Some ex_a)"

definition ex_info :: "path \<Rightarrow> info" where
  "ex_info p = \<lparr>fieldName = None, fieldNodes = None, path = Some p, span = None\<rparr>"

text \<open>A host context that has none of the helpers, and the same with an empty registry.\<close>

definition ex_plain :: SpanContext where
  "ex_plain = \<lparr>SPANS = None, has_getSpanByPath = False, has_addSpan = False\<rparr>"

definition ex_attached :: SpanContext where
  "ex_attached = \<lparr>SPANS = Some Map.empty, has_getSpanByPath = True, has_addSpan = True\<rparr>"

text \<open>
  A tracer whose extractor finds no propagated context, and the tracer's spans after a
  request span was started.
\<close>

definition ex_tracer :: tracer where
  "ex_tracer = \<lparr>propagation_extract = (\<lambda>getter. None)\<rparr>"

definition ex_store :: store where
  "ex_store =
     [\<lparr>options = \<lparr>name = ''request'', kind = SERVER, spanContext = None\<rparr>,
       links = [], ended = False\<rparr>]"

definition ex_request :: RequestStart where
  "ex_request = \<lparr>request = None, queryString = Some ''query {}''\<rparr>"

text \<open>
  Extensions with the default predicates and hooks: one that holds no request span, one
  that holds the request span of \<open>ex_store\<close>, and one whose resolve-finish hook throws.
\<close>

definition ex_idle :: "unit OpencensusExtension" where
  "ex_idle =
     \<lparr>tracer = ex_tracer, requestSpan = None, onFieldResolveFinish = None,
      onFieldResolve = None, shouldTraceRequest = (\<lambda>infos. alwaysTrue infos),
      shouldTraceFieldResolver = (\<lambda>source args ctx i. alwaysTrue i),
      onRequestResolve = emptyFunction\<rparr>"

definition ex_tracing :: "unit OpencensusExtension" where
  "ex_tracing = ex_idle\<lparr>requestSpan := Some 0\<rparr>"

definition ex_throwing :: "unit OpencensusExtension" where
  "ex_throwing =
     ex_tracing\<lparr>onFieldResolveFinish := Some (\<lambda>err result sp. Throws (Error ''hook failed''))\<rparr>"

text \<open>Options whose request predicate refuses every request.\<close>

definition ex_refusing_options :: "unit InitOptions" where
  "ex_refusing_options =
     \<lparr>opt_tracer = Some ex_tracer, opt_onFieldResolveFinish = None, opt_onFieldResolve = None,
      opt_shouldTraceRequest = Some (\<lambda>infos. False), opt_shouldTraceFieldResolver = None,
      opt_onRequestResolve = None\<rparr>"

text \<open>An extension that refuses the field \<open>a\<close> and accepts every other field.\<close>

definition ex_selective :: "unit OpencensusExtension" where
  "ex_selective =
     ex_tracing\<lparr>shouldTraceFieldResolver := (\<lambda>source args ctx i. path i \<noteq> Some ex_a)\<rparr>"

definition ex_visit :: "path \<Rightarrow> unit visit" where
  "ex_visit p = \<lparr>v_source = (), v_args = (), v_info = ex_info p\<rparr>"

text \<open>
  An extension that traces the request \<open>ex_request\<close> and refuses every other request,
  a request it refuses, and the instance and the tracer's spans left behind when the
  traced request \<open>ex_request\<close> has been started and finished on it.
\<close>

definition ex_choosy :: "unit OpencensusExtension" where
  "ex_choosy = ex_idle\<lparr>shouldTraceRequest := (\<lambda>infos. queryString infos = Some ''query {}'')\<rparr>"

definition ex_refused_request :: RequestStart where
  "ex_refused_request = \<lparr>request = None, queryString = None\<rparr>"

definition ex_reused :: "unit OpencensusExtension \<times> store" where
  "ex_reused =
     call_request_finish (RequestFinish 0)
       (rr_extension (requestDidStart ex_choosy [] ex_request),
        rr_store (requestDidStart ex_choosy [] ex_request))"

section \<open>Properties of the path key\<close>

lemma join_snoc:
  "join sep (xs @ [x]) = (if xs = [] then element_text x else join sep xs @ sep @ element_text x)"
  by (induction sep xs rule: join.induct) auto

lemma segments_chain_keys: "segments p = map key_segment (chain_keys p)"
proof (induction p rule: chain_keys.induct)
  case 1
  show ?case by simp
next
  case (2 k p)
  then show ?case by (cases k) simp_all
qed

lemma buildPath_None: "buildPath None = []"
  by (simp add: buildPath_def)

lemma buildPath_top: "buildPath (Some (Path k None)) = element_text (key_segment k)"
  by (cases k) (simp_all add: buildPath_def)

lemma buildPath_step:
  "buildPath (Some (Path k (Some q))) = buildPath (Some q) @ ''.'' @ element_text (key_segment k)"
proof -
  obtain k' p' where q: "q = Path k' p'" by (cases q)
  have "segments (Some (Path k (Some q))) = key_segment k # segments (Some q)"
    by (simp add: segments_chain_keys q)
  moreover have "rev (segments (Some q)) \<noteq> []"
    by (simp add: q)
  ultimately show ?thesis
    by (simp add: buildPath_def join_snoc del: segments.simps segment.simps)
qed

lemma string_of_nat_1: "string_of_nat (Suc 0) = ''1''"
  by (subst string_of_nat.simps) (simp add: digit_char_def)

lemma digit_char_cases:
  assumes "(d::nat) < 10"
  shows "d = 0 \<or> d = 1 \<or> d = 2 \<or> d = 3 \<or> d = 4 \<or> d = 5 \<or> d = 6 \<or> d = 7 \<or> d = 8 \<or> d = 9"
  using assms by (auto simp: less_Suc_eq eval_nat_numeral)

lemma digit_char_code:
  assumes "d < 10"
  shows "(of_char (digit_char d) :: nat) = 48 + d"
  using digit_char_cases [OF assms] by (elim disjE) (simp_all add: digit_char_def)

lemma digit_char_inj:
  assumes "a < 10" "b < 10" "digit_char a = digit_char b"
  shows "a = b"
proof -
  have "(of_char (digit_char a) :: nat) = of_char (digit_char b)"
    using assms(3) by simp
  then show ?thesis
    by (simp add: digit_char_code [OF assms(1)] digit_char_code [OF assms(2)])
qed

lemma digit_char_not_dot:
  assumes "d < 10"
  shows "digit_char d \<noteq> CHR ''.''"
proof
  assume "digit_char d = CHR ''.''"
  then have "(of_char (digit_char d) :: nat) = of_char (CHR ''.'')" by simp
  then show False by (simp add: digit_char_code [OF assms])
qed

lemma string_of_nat_not_Nil: "string_of_nat n \<noteq> []"
  by (subst string_of_nat.simps) simp

lemma string_of_nat_no_dot: "CHR ''.'' \<notin> set (string_of_nat n)"
proof (induction n rule: string_of_nat.induct)
  case (1 n)
  show ?case
  proof (cases "n < 10")
    case True
    then show ?thesis
      using digit_char_not_dot [of n] by (subst string_of_nat.simps) auto
  next
    case False
    have "n mod 10 < 10" by simp
    then have "digit_char (n mod 10) \<noteq> CHR ''.''" by (rule digit_char_not_dot)
    with False 1 show ?thesis
      by (subst string_of_nat.simps) auto
  qed
qed

lemma string_of_nat_inj: "string_of_nat m = string_of_nat n \<Longrightarrow> m = n"
proof (induction m arbitrary: n rule: string_of_nat.induct)
  case (1 m)
  show ?case
  proof (cases "m < 10")
    case m: True
    show ?thesis
    proof (cases "n < 10")
      case True
      with m 1(2) have "digit_char m = digit_char n"
        by (simp add: string_of_nat.simps [of m] string_of_nat.simps [of n])
      with m True show ?thesis by (rule digit_char_inj)
    next
      case False
      with m 1(2) have "[digit_char m] = string_of_nat (n div 10) @ [digit_char (n mod 10)]"
        by (simp add: string_of_nat.simps [of m] string_of_nat.simps [of n])
      then show ?thesis using string_of_nat_not_Nil [of "n div 10"] by auto
    qed
  next
    case m: False
    show ?thesis
    proof (cases "n < 10")
      case True
      with m 1(2) have "string_of_nat (m div 10) @ [digit_char (m mod 10)] = [digit_char n]"
        by (simp add: string_of_nat.simps [of m] string_of_nat.simps [of n])
      then show ?thesis using string_of_nat_not_Nil [of "m div 10"] by auto
    next
      case False
      with m 1(2) have eq: "string_of_nat (m div 10) @ [digit_char (m mod 10)]
          = string_of_nat (n div 10) @ [digit_char (n mod 10)]"
        by (simp add: string_of_nat.simps [of m] string_of_nat.simps [of n])
      then have "string_of_nat (m div 10) = string_of_nat (n div 10)"
        and d: "digit_char (m mod 10) = digit_char (n mod 10)" by simp_all
      with 1(1) m have q: "m div 10 = n div 10" by blast
      have "m mod 10 = n mod 10"
        by (rule digit_char_inj [OF _ _ d]) simp_all
      with q have "10 * (m div 10) + m mod 10 = 10 * (n div 10) + n mod 10" by simp
      then show ?thesis by (simp only: mult_div_mod_eq)
    qed
  qed
qed

text \<open>
  Joining with dots is injective on lists of segments that are all present, not empty
  and free of dots: the first segment is what precedes the first dot.
\<close>

lemma join_dot_takeWhile:
  assumes "CHR ''.'' \<notin> set s"
  shows "takeWhile (\<lambda>c. c \<noteq> CHR ''.'') (join ''.'' (Some s # xs)) = s"
proof (cases xs)
  case Nil
  with assms show ?thesis by (auto simp: takeWhile_eq_all_conv)
next
  case (Cons y ys)
  have "takeWhile (\<lambda>c. c \<noteq> CHR ''.'') (s @ CHR ''.'' # join ''.'' (y # ys)) = s"
    using assms by (induction s) auto
  with Cons show ?thesis by simp
qed

lemma join_dot_inj:
  assumes "\<forall>x\<in>set xs. \<exists>s. x = Some s \<and> s \<noteq> [] \<and> CHR ''.'' \<notin> set s"
    and "\<forall>y\<in>set ys. \<exists>s. y = Some s \<and> s \<noteq> [] \<and> CHR ''.'' \<notin> set s"
    and "join ''.'' xs = join ''.'' ys"
  shows "xs = ys"
  using assms
proof (induction xs arbitrary: ys)
  case Nil
  show ?case
  proof (cases ys)
    case Nil
    then show ?thesis by simp
  next
    case (Cons y ys')
    with Nil(2) obtain s where "y = Some s" "s \<noteq> []" by auto
    with Nil(3) Cons show ?thesis by (cases ys') simp_all
  qed
next
  case (Cons x xs')
  from Cons.prems(1) obtain s where x: "x = Some s" "s \<noteq> []" "CHR ''.'' \<notin> set s" by auto
  show ?case
  proof (cases ys)
    case Nil
    with Cons.prems(3) x show ?thesis by (cases xs') simp_all
  next
    case ys: (Cons y ys')
    with Cons.prems(2) obtain t where y: "y = Some t" "t \<noteq> []" "CHR ''.'' \<notin> set t" by auto
    have "takeWhile (\<lambda>c. c \<noteq> CHR ''.'') (join ''.'' (Some s # xs')) = s"
      using x(3) by (rule join_dot_takeWhile)
    moreover have "takeWhile (\<lambda>c. c \<noteq> CHR ''.'') (join ''.'' (Some t # ys')) = t"
      using y(3) by (rule join_dot_takeWhile)
    ultimately have st: "s = t" using Cons.prems(3) x(1) y(1) ys by simp
    have rest: "join ''.'' xs' = join ''.'' ys'"
    proof (cases xs')
      case Nil
      show ?thesis
      proof (cases ys')
        case Nil
        with \<open>xs' = []\<close> show ?thesis by simp
      next
        case (Cons b bs)
        with Nil Cons.prems(3) x(1) y(1) ys st show ?thesis by simp
      qed
    next
      case xs: (Cons a as)
      show ?thesis
      proof (cases ys')
        case Nil
        with xs Cons.prems(3) x(1) y(1) ys st show ?thesis by simp
      next
        case (Cons b bs)
        with xs Cons.prems(3) x(1) y(1) ys st show ?thesis by simp
      qed
    qed
    have "xs' = ys'"
      using Cons.IH [OF _ _ rest] Cons.prems(1,2) ys by simp
    with st x(1) y(1) ys show ?thesis by simp
  qed
qed

section \<open>Properties of the registry\<close>

lemma addSpan_Inr:
  assumes "addSpan obj sp i = Inr obj1"
  shows "\<exists>m. SPANS obj = Some m \<and> has_addSpan obj
           \<and> obj1 = obj\<lparr>SPANS := Some (m(buildPath (path i) \<mapsto> sp))\<rparr>"
  using assms by (auto simp: addSpan_def split: if_splits option.splits)

lemma addSpan_registered:
  assumes "addSpan obj sp i = Inr obj1"
  shows "registered obj1 = (registered obj)(buildPath (path i) \<mapsto> sp)"
  using addSpan_Inr [OF assms] by (auto simp: registered_def)

lemma addSpan_methods:
  assumes "addSpan obj sp i = Inr obj1"
  shows "has_getSpanByPath obj1 = has_getSpanByPath obj \<and> has_addSpan obj1 \<and> SPANS obj1 \<noteq> None"
  using addSpan_Inr [OF assms] by auto

lemma getSpanByPath_registered:
  assumes "has_getSpanByPath obj" and "SPANS obj \<noteq> None"
  shows "getSpanByPath obj n = Inr (registered obj (buildPath (if isArrayPath n then prev n else Some n)))"
  using assms by (auto simp: getSpanByPath_def registered_def)

lemma addSpans_keeps:
  assumes "addSpans obj ws = Inr obj2"
    and "\<forall>(s, j) \<in> set ws. buildPath (path j) \<noteq> k"
  shows "registered obj2 k = registered obj k \<and> has_getSpanByPath obj2 = has_getSpanByPath obj"
  using assms
proof (induction ws arbitrary: obj)
  case Nil
  then show ?case by simp
next
  case (Cons w ws)
  obtain s j where w: "w = (s, j)" by (cases w)
  from Cons.prems(1) w obtain obj1 where a: "addSpan obj s j = Inr obj1"
    and r: "addSpans obj1 ws = Inr obj2"
    by (auto split: sum.splits)
  from Cons.prems(2) w have k: "buildPath (path j) \<noteq> k" and rest: "\<forall>(s, j) \<in> set ws. buildPath (path j) \<noteq> k"
    by auto
  from Cons.IH [OF r rest] addSpan_registered [OF a] addSpan_methods [OF a] k
  show ?case by simp
qed

lemma addContextHelpers_twice: "addContextHelpers (addContextHelpers obj) = addContextHelpers obj"
  by (simp add: addContextHelpers_def isSpanContext_def)

lemma addContextHelpers_attached:
  assumes "well_formed obj"
  shows "isSpanContext (addContextHelpers obj) \<and> SPANS (addContextHelpers obj) \<noteq> None"
  using assms by (auto simp: addContextHelpers_def isSpanContext_def well_formed_def)

text \<open>
  C1 (as amended). For every node \<open>n\<close> that is not an array-indexed step and every span
  \<open>sp\<close>: on a context that carries the helpers, \<open>getSpanByPath(n)\<close> after
  \<open>addSpan(sp, info)\<close> with \<open>info.path = n\<close> returns \<open>sp\<close>, whatever is written in
  between under other path keys. For an array-indexed step the lookup reads the key of
  the parent, so the span registered under the step's own key is not what it returns.
\<close>

theorem registry_round_trip:
  assumes "isSpanContext obj"
    and "addSpan obj sp i = Inr obj1"
    and "addSpans obj1 ws = Inr obj2"
    and "path i = Some n"
    and "\<not> isArrayPath n"
    and "\<forall>(s, j) \<in> set ws. buildPath (path j) \<noteq> buildPath (path i)"
  shows "getSpanByPath obj2 n = Inr (Some sp)"
proof -
  from assms(1) have g: "has_getSpanByPath obj" by (simp add: isSpanContext_def)
  from addSpans_keeps [OF assms(3) assms(6)]
  have k: "registered obj2 (buildPath (path i)) = registered obj1 (buildPath (path i))"
    and g2: "has_getSpanByPath obj2 = has_getSpanByPath obj1" by simp_all
  from addSpan_registered [OF assms(2)] have r: "registered obj1 (buildPath (path i)) = Some sp"
    by simp
  from addSpan_methods [OF assms(2)] g g2 have g3: "has_getSpanByPath obj2" by simp
  from k r have "SPANS obj2 \<noteq> None" by (auto simp: registered_def split: option.splits)
  from getSpanByPath_registered [OF g3 this, of n] assms(4,5) k r
  show ?thesis by simp
qed

theorem registry_round_trip_witness:
  "getSpanByPath
     (ex_attached\<lparr>SPANS := Some [''a.three'' \<mapsto> 7, ''a'' \<mapsto> 3]\<rparr>) ex_three = Inr (Some 7)"
proof -
  have b3: "buildPath (Some ex_three) = ''a.three''"
    by (simp add: ex_three_def ex_a_def buildPath_step buildPath_top)
  have ba: "buildPath (Some ex_a) = ''a''"
    by (simp add: ex_a_def buildPath_top)
  have 1: "isSpanContext ex_attached"
    by (simp add: isSpanContext_def ex_attached_def)
  have 2: "addSpan ex_attached 7 (ex_info ex_three) = Inr (ex_attached\<lparr>SPANS := Some [''a.three'' \<mapsto> 7]\<rparr>)"
    by (simp add: addSpan_def ex_attached_def ex_info_def b3)
  have 3: "addSpans (ex_attached\<lparr>SPANS := Some [''a.three'' \<mapsto> 7]\<rparr>) [(3, ex_info ex_a)]
      = Inr (ex_attached\<lparr>SPANS := Some [''a.three'' \<mapsto> 7, ''a'' \<mapsto> 3]\<rparr>)"
    by (simp add: addSpan_def ex_attached_def ex_info_def ba)
  have 4: "path (ex_info ex_three) = Some ex_three" by (simp add: ex_info_def)
  have 5: "\<not> isArrayPath ex_three" by (simp add: ex_three_def)
  have 6: "\<forall>(s, j) \<in> set [(3, ex_info ex_a)]. buildPath (path j) \<noteq> buildPath (path (ex_info ex_three))"
    by (simp add: ex_info_def b3 ba)
  show ?thesis by (rule registry_round_trip [OF 1 2 3 4 5 6])
qed

theorem registry_round_trip_counterexample:
  "\<not> isl (addSpan ex_attached 7 (ex_info ex_element))
   \<and> getSpanByPath (projr (addSpan ex_attached 7 (ex_info ex_element))) ex_element = Inr None"
proof -
  have b3: "buildPath (Some ex_three) = ''a.three''"
    by (simp add: ex_three_def ex_a_def buildPath_step buildPath_top)
  have be: "buildPath (Some ex_element) = ''a.three.[1]''"
    by (simp add: ex_element_def ex_three_def ex_a_def buildPath_step buildPath_top string_of_nat_1)
  have a: "addSpan ex_attached 7 (ex_info ex_element)
      = Inr (ex_attached\<lparr>SPANS := Some [''a.three.[1]'' \<mapsto> 7]\<rparr>)"
    by (simp add: addSpan_def ex_attached_def ex_info_def be)
  have "getSpanByPath (ex_attached\<lparr>SPANS := Some [''a.three.[1]'' \<mapsto> 7]\<rparr>) ex_element = Inr None"
    by (simp add: getSpanByPath_def ex_attached_def ex_element_def b3)
  with a show ?thesis by simp
qed


text \<open>
  C2 (as amended). The path key joins every segment with a dot, bracketed index
  segments included: a named step \<open>s\<close> below \<open>q\<close> renders as the key of \<open>q\<close>, a dot and
  \<open>s\<close>; an indexed step \<open>n\<close> below \<open>q\<close> renders as the key of \<open>q\<close>, a dot and \<open>[n]\<close>.
  The chain a, three, 1, four renders as \<open>a.three.[1].four\<close>.
\<close>

theorem buildPath_joins_every_segment:
  "buildPath (Some (Path (KStr s) None)) = s
   \<and> buildPath (Some (Path (KNum n) None)) = ''['' @ string_of_nat n @ '']''
   \<and> buildPath (Some (Path (KStr s) (Some q))) = buildPath (Some q) @ ''.'' @ s
   \<and> buildPath (Some (Path (KNum n) (Some q))) = buildPath (Some q) @ ''.['' @ string_of_nat n @ '']''"
  by (simp add: buildPath_top buildPath_step)

theorem buildPath_joins_every_segment_witness:
  "buildPath (Some ex_element) = buildPath (Some ex_three) @ ''.[1]''
   \<and> buildPath (Some ex_four) = buildPath (Some ex_element) @ ''.four''"
  using buildPath_joins_every_segment [of "''four''" 1 ex_element]
    buildPath_joins_every_segment [of "''four''" 1 ex_three]
  by (simp add: ex_four_def ex_element_def string_of_nat_1)

theorem buildPath_index_counterexample:
  "buildPath (Some ex_four) = ''a.three.[1].four'' \<and> buildPath (Some ex_four) \<noteq> ''a.three[1].four''"
  by (simp add: ex_four_def ex_element_def ex_three_def ex_a_def buildPath_step buildPath_top
      string_of_nat_1)

text \<open>
  C7 (as amended). \<open>buildPath\<close> is a total function of the chain: it returns the empty
  string for \<open>undefined\<close>, and its result is determined by the sequence of keys of the
  chain, so two chains with the same keys in the same order have the same path key. A
  step without a key is not skipped: it contributes an empty segment, which keeps its
  separating dot.
\<close>

theorem buildPath_total_deterministic:
  "buildPath None = []
   \<and> buildPath p = join ''.'' (map key_segment (rev (chain_keys p)))
   \<and> (chain_keys p = chain_keys q \<longrightarrow> buildPath p = buildPath q)
   \<and> buildPath (Some (Path KUndef None)) = []
   \<and> buildPath (Some (Path KUndef (Some r))) = buildPath (Some r) @ ''.''"
  by (simp add: buildPath_top buildPath_step) (simp add: buildPath_def segments_chain_keys rev_map)

theorem buildPath_total_deterministic_witness:
  "buildPath (Some ex_three) = join ''.'' [Some ''a'', Some ''three'']
   \<and> buildPath (Some ex_three) = buildPath (Some (Path (KStr ''three'') (Some (Path (KStr ''a'') None))))
   \<and> buildPath (Some ex_keyless) = buildPath (Some ex_a) @ ''.''"
  using buildPath_total_deterministic [of "Some ex_three"
      "Some (Path (KStr ''three'') (Some (Path (KStr ''a'') None)))" ex_a]
  by (simp add: ex_three_def ex_a_def ex_keyless_def)

theorem buildPath_keyless_counterexample:
  "buildPath (Some ex_keyless) = ''a.'' \<and> buildPath (Some ex_keyless) \<noteq> buildPath (Some ex_a)"
  by (simp add: ex_keyless_def ex_a_def buildPath_step buildPath_top)

text \<open>
  C6. On a context that carries the helpers, \<open>getSpanByPath\<close> of an array-indexed node
  reads the registry at the path key of the node's parent, while for a named node it
  reads the key of the node itself; \<open>addSpan\<close> stores the span under the full path key
  of \<open>info.path\<close>, which for an array-indexed node ends with the bracketed index.
\<close>

theorem index_stripping_asymmetry:
  assumes "isSpanContext obj" and "SPANS obj = Some m"
  shows "getSpanByPath obj (Path (KNum n) p) = Inr (m (buildPath p))
         \<and> getSpanByPath obj (Path (KStr s) p) = Inr (m (buildPath (Some (Path (KStr s) p))))
         \<and> addSpan obj sp i = Inr (obj\<lparr>SPANS := Some (m(buildPath (path i) \<mapsto> sp))\<rparr>)
         \<and> (path i = Some (Path (KNum n) (Some q))
              \<longrightarrow> buildPath (path i) = buildPath (Some q) @ ''.['' @ string_of_nat n @ '']'')"
  using assms by (simp add: getSpanByPath_def addSpan_def isSpanContext_def buildPath_step)

theorem index_stripping_asymmetry_witness:
  "getSpanByPath (ex_attached\<lparr>SPANS := Some [''a.three'' \<mapsto> 5]\<rparr>) ex_element = Inr (Some 5)
   \<and> addSpan (ex_attached\<lparr>SPANS := Some [''a.three'' \<mapsto> 5]\<rparr>) 7 (ex_info ex_element)
       = Inr (ex_attached\<lparr>SPANS := Some [''a.three'' \<mapsto> 5, ''a.three.[1]'' \<mapsto> 7]\<rparr>)"
proof -
  have b3: "buildPath (Some ex_three) = ''a.three''"
    by (simp add: ex_three_def ex_a_def buildPath_step buildPath_top)
  have 1: "isSpanContext (ex_attached\<lparr>SPANS := Some [''a.three'' \<mapsto> 5]\<rparr>)"
    by (simp add: isSpanContext_def ex_attached_def)
  have 2: "SPANS (ex_attached\<lparr>SPANS := Some [''a.three'' \<mapsto> 5]\<rparr>) = Some [''a.three'' \<mapsto> 5]"
    by simp
  have 3: "path (ex_info ex_element) = Some (Path (KNum 1) (Some ex_three))"
    by (simp add: ex_info_def ex_element_def)
  from index_stripping_asymmetry [OF 1 2, of 1 "Some ex_three" "''x''" 7 "ex_info ex_element" ex_three] 3
  show ?thesis by (simp add: ex_element_def b3 string_of_nat_1)
qed

text \<open>
  C8. For every context object, a second \<open>addContextHelpers\<close> returns what the first
  returned. A span added after the first attachment (which succeeds on every well-formed
  context) is kept by the second: the context is returned unchanged, the registry still
  holds the span under its path key, and \<open>getSpanByPath\<close> returns it for a node that is
  not array-indexed.
\<close>

theorem addContextHelpers_idempotent:
  "addContextHelpers (addContextHelpers obj) = addContextHelpers obj
   \<and> (well_formed obj \<longrightarrow> \<not> isl (addSpan (addContextHelpers obj) sp i))
   \<and> (addSpan (addContextHelpers obj) sp i = Inr obj1 \<longrightarrow>
        addContextHelpers obj1 = obj1
        \<and> registered (addContextHelpers obj1) (buildPath (path i)) = Some sp
        \<and> (\<forall>n. path i = Some n \<and> \<not> isArrayPath n \<longrightarrow>
              getSpanByPath (addContextHelpers obj1) n = Inr (Some sp)))"
proof (intro conjI impI allI)
  show "addContextHelpers (addContextHelpers obj) = addContextHelpers obj"
    by (rule addContextHelpers_twice)
next
  assume "well_formed obj"
  from addContextHelpers_attached [OF this]
  show "\<not> isl (addSpan (addContextHelpers obj) sp i)"
    by (auto simp: addSpan_def isSpanContext_def)
next
  assume a: "addSpan (addContextHelpers obj) sp i = Inr obj1"
  have g: "has_getSpanByPath (addContextHelpers obj)"
    using addSpan_Inr [OF a] by (auto simp: addContextHelpers_def isSpanContext_def split: if_splits)
  with addSpan_methods [OF a] have m: "has_getSpanByPath obj1" "has_addSpan obj1" "SPANS obj1 \<noteq> None"
    by simp_all
  then show same: "addContextHelpers obj1 = obj1"
    by (simp add: addContextHelpers_def isSpanContext_def)
  from addSpan_registered [OF a]
  show r: "registered (addContextHelpers obj1) (buildPath (path i)) = Some sp"
    by (simp add: same)
  fix n
  assume "path i = Some n \<and> \<not> isArrayPath n"
  with getSpanByPath_registered [OF m(1) m(3), of n] r
  show "getSpanByPath (addContextHelpers obj1) n = Inr (Some sp)"
    by (simp add: same)
qed

theorem addContextHelpers_idempotent_witness:
  "addContextHelpers (addContextHelpers ex_plain) = ex_attached
   \<and> getSpanByPath (addContextHelpers (ex_attached\<lparr>SPANS := Some [''a'' \<mapsto> 7]\<rparr>)) ex_a = Inr (Some 7)"
proof -
  have ba: "buildPath (Some ex_a) = ''a''"
    by (simp add: ex_a_def buildPath_top)
  have 0: "addContextHelpers ex_plain = ex_attached"
    by (simp add: addContextHelpers_def isSpanContext_def ex_plain_def ex_attached_def)
  have 1: "well_formed ex_plain"
    by (simp add: well_formed_def isSpanContext_def ex_plain_def)
  have 2: "addSpan (addContextHelpers ex_plain) 7 (ex_info ex_a)
      = Inr (ex_attached\<lparr>SPANS := Some [''a'' \<mapsto> 7]\<rparr>)"
    by (simp add: 0 addSpan_def ex_attached_def ex_info_def ba)
  have 3: "path (ex_info ex_a) = Some ex_a \<and> \<not> isArrayPath ex_a"
    by (simp add: ex_info_def ex_a_def)
  from addContextHelpers_idempotent [of ex_plain 7 "ex_info ex_a" "ex_attached\<lparr>SPANS := Some [''a'' \<mapsto> 7]\<rparr>"]
    1 2 3
  show ?thesis by (clarsimp simp: 0)
qed

section \<open>Properties of willResolveField\<close>

lemma willResolveField_throws:
  assumes "not_traced this source args ctx i = Inl e"
  shows "willResolveField this st source args ctx i
         = \<lparr>fr_store = st, fr_context = ctx, fr_info = i, fr_outcome = Inl e\<rparr>"
  using assms by (simp add: willResolveField_def)

lemma willResolveField_untraced:
  assumes "not_traced this source args ctx i = Inr True"
  shows "willResolveField this st source args ctx i
         = \<lparr>fr_store = st, fr_context = ctx, fr_info = i, fr_outcome = Inr None\<rparr>"
  using assms by (simp add: willResolveField_def)

lemma willResolveField_not_traced:
  assumes "not_traced this source args ctx i \<noteq> Inr False"
  shows "fr_store (willResolveField this st source args ctx i) = st
         \<and> fr_context (willResolveField this st source args ctx i) = ctx
         \<and> (\<forall>fin. fr_outcome (willResolveField this st source args ctx i) \<noteq> Inr (Some fin))"
proof (cases "not_traced this source args ctx i")
  case (Inl e)
  then show ?thesis by (simp add: willResolveField_throws)
next
  case (Inr b)
  with assms have "not_traced this source args ctx i = Inr True" by (cases b) simp_all
  then show ?thesis by (simp add: willResolveField_untraced)
qed

lemma willResolveField_finish:
  assumes "fr_outcome (willResolveField this st source args ctx i) = Inr (Some fin)"
  shows "not_traced this source args ctx i = Inr False
         \<and> fin = FieldFinish (length st)
         \<and> length (fr_store (willResolveField this st source args ctx i)) = Suc (length st)"
proof -
  have g: "not_traced this source args ctx i = Inr False"
    using assms willResolveField_not_traced [of this source args ctx i st] by blast
  with assms show ?thesis
    by (auto simp: willResolveField_def Let_def startRootSpan_def addLink_def
        split: sum.splits option.splits hook_result.splits if_splits)
qed

lemma addContextHelpers_registered:
  "registered (addContextHelpers obj) k \<noteq> None \<Longrightarrow> registered obj k \<noteq> None"
  by (auto simp: addContextHelpers_def registered_def split: if_splits)

lemma willResolveField_registers:
  assumes "registered (fr_context (willResolveField this st source args ctx i)) k \<noteq> None"
  shows "registered ctx k \<noteq> None
         \<or> (k = buildPath (path i) \<and> not_traced this source args ctx i = Inr False)"
proof (cases "not_traced this source args ctx i = Inr False")
  case False
  with assms willResolveField_not_traced [OF False, of st] show ?thesis by simp
next
  case True
  show ?thesis
  proof (cases "k = buildPath (path i)")
    case True
    with \<open>not_traced this source args ctx i = Inr False\<close> show ?thesis by simp
  next
    case False
    have "registered (addContextHelpers ctx) k \<noteq> None"
      using assms True False
      by (auto simp: willResolveField_def Let_def startRootSpan_def
          split: sum.splits option.splits hook_result.splits prod.splits
          dest!: addSpan_registered)
    then have "registered ctx k \<noteq> None" by (rule addContextHelpers_registered)
    then show ?thesis by simp
  qed
qed


lemma end_span_ended: "sp < length st \<Longrightarrow> is_ended (end_span st sp) sp"
  by (simp add: end_span_def is_ended_def)

text \<open>
  C3 (as amended). For every field node that is traced, the returned finish action is
  bound to the span that the call opened. Invoking it ends that span when no
  resolve-finish hook is configured or the hook returns; when the hook throws, the
  finish action is left with the hook's exception before \<open>span.end()\<close>, and the
  tracer's spans are as they were.
\<close>

theorem finish_ends_span_unless_hook_throws:
  assumes "fr_outcome (willResolveField this st source args ctx i) = Inr (Some fin)"
    and "length st < length st'"
  shows "fin = FieldFinish (length st)
         \<and> ((onFieldResolveFinish this = None
              \<or> (\<exists>hook. onFieldResolveFinish this = Some hook \<and> hook err res (length st) = Returns))
             \<longrightarrow> snd (call_field_finish this fin err res st') = None
                 \<and> is_ended (fst (call_field_finish this fin err res st')) (length st))
         \<and> (\<forall>hook e. onFieldResolveFinish this = Some hook \<and> hook err res (length st) = Throws e
             \<longrightarrow> call_field_finish this fin err res st' = (st', Some e))"
proof -
  from willResolveField_finish [OF assms(1)] have fin: "fin = FieldFinish (length st)" by simp
  from assms(2) have "is_ended (end_span st' (length st)) (length st)" by (rule end_span_ended)
  with fin show ?thesis by auto
qed

lemma ex_a_key: "buildPath (Some ex_a) = ''a''"
  by (simp add: ex_a_def buildPath_top)

lemma ex_tracing_visit:
  "willResolveField (ex_tracing\<lparr>onFieldResolveFinish := h\<rparr>) ex_store () () ex_plain (ex_info ex_a)
   = \<lparr>fr_store =
        [\<lparr>options = \<lparr>name = ''request'', kind = SERVER, spanContext = None\<rparr>,
          links = [], ended = False\<rparr>,
         \<lparr>options = \<lparr>name = ''field'', kind = SERVER, spanContext = Some (OfSpan 0)\<rparr>,
          links = [0], ended = False\<rparr>],
      fr_context = ex_attached\<lparr>SPANS := Some [''a'' \<mapsto> 1]\<rparr>,
      fr_info = (ex_info ex_a)\<lparr>span := Some 1\<rparr>,
      fr_outcome = Inr (Some (FieldFinish 1))\<rparr>"
  by (simp add: willResolveField_def not_traced_def ex_tracing_def ex_idle_def
      alwaysTrue_def parent_path_def ex_info_def ex_a_key addContextHelpers_def isSpanContext_def
      ex_plain_def ex_attached_def getFieldName_def startRootSpan_def ex_store_def addLink_def
      addSpan_def Let_def ex_a_def buildPath_top)

lemma ex_throwing_visit:
  "willResolveField ex_throwing ex_store () () ex_plain (ex_info ex_a)
   = \<lparr>fr_store =
        [\<lparr>options = \<lparr>name = ''request'', kind = SERVER, spanContext = None\<rparr>,
          links = [], ended = False\<rparr>,
         \<lparr>options = \<lparr>name = ''field'', kind = SERVER, spanContext = Some (OfSpan 0)\<rparr>,
          links = [0], ended = False\<rparr>],
      fr_context = ex_attached\<lparr>SPANS := Some [''a'' \<mapsto> 1]\<rparr>,
      fr_info = (ex_info ex_a)\<lparr>span := Some 1\<rparr>,
      fr_outcome = Inr (Some (FieldFinish 1))\<rparr>"
  unfolding ex_throwing_def by (rule ex_tracing_visit)


theorem finish_ends_span_unless_hook_throws_witness:
  "is_ended (fst (call_field_finish ex_tracing (FieldFinish 1) None ()
      (fr_store (willResolveField ex_throwing ex_store () () ex_plain (ex_info ex_a))))) 1
   \<and> call_field_finish ex_throwing (FieldFinish 1) None ()
        (fr_store (willResolveField ex_throwing ex_store () () ex_plain (ex_info ex_a)))
       = (fr_store (willResolveField ex_throwing ex_store () () ex_plain (ex_info ex_a)),
          Some (Error ''hook failed''))"
proof -
  have "ex_tracing = ex_tracing\<lparr>onFieldResolveFinish := None\<rparr>"
    by (simp add: ex_tracing_def ex_idle_def)
  then have "willResolveField ex_tracing ex_store () () ex_plain (ex_info ex_a)
      = willResolveField (ex_tracing\<lparr>onFieldResolveFinish := None\<rparr>) ex_store () () ex_plain (ex_info ex_a)"
    by simp
  then have t: "willResolveField ex_tracing ex_store () () ex_plain (ex_info ex_a)
      = willResolveField ex_throwing ex_store () () ex_plain (ex_info ex_a)"
    by (simp only: ex_tracing_visit ex_throwing_visit)
  have 1: "fr_outcome (willResolveField ex_throwing ex_store () () ex_plain (ex_info ex_a))
      = Inr (Some (FieldFinish 1))"
    by (simp add: ex_throwing_visit)
  have 2: "length ex_store
      < length (fr_store (willResolveField ex_throwing ex_store () () ex_plain (ex_info ex_a)))"
    by (simp only: ex_throwing_visit) (simp add: ex_store_def)
  have l: "length ex_store = 1" by (simp add: ex_store_def)
  have n: "onFieldResolveFinish ex_tracing = None"
    by (simp add: ex_tracing_def ex_idle_def)
  have h: "onFieldResolveFinish ex_throwing = Some (\<lambda>err result sp. Throws (Error ''hook failed''))"
    by (simp add: ex_throwing_def)
  from finish_ends_span_unless_hook_throws [OF 1 2, of None "()"]
  have a: "call_field_finish ex_throwing (FieldFinish 1) None ()
        (fr_store (willResolveField ex_throwing ex_store () () ex_plain (ex_info ex_a)))
       = (fr_store (willResolveField ex_throwing ex_store () () ex_plain (ex_info ex_a)),
          Some (Error ''hook failed''))"
    using h l by simp
  from finish_ends_span_unless_hook_throws [OF 1 [folded t] 2, of None "()"]
  have b: "is_ended (fst (call_field_finish ex_tracing (FieldFinish 1) None ()
      (fr_store (willResolveField ex_throwing ex_store () () ex_plain (ex_info ex_a))))) 1"
    using n l by simp
  from a b show ?thesis by simp
qed

theorem finish_hook_throws_counterexample:
  "fr_outcome (willResolveField ex_throwing ex_store () () ex_plain (ex_info ex_a))
     = Inr (Some (FieldFinish 1))
   \<and> \<not> is_ended (fst (call_field_finish ex_throwing (FieldFinish 1) None ()
        (fr_store (willResolveField ex_throwing ex_store () () ex_plain (ex_info ex_a))))) 1"
  by (simp add: ex_throwing_visit) (simp add: ex_throwing_def is_ended_def)

text \<open>
  C9 (as amended). \<open>willResolveField\<close> evaluates \<open>context.getSpanByPath\<close> inside its
  guard, before \<open>addContextHelpers\<close>, and only when the extension holds a request span
  and \<open>shouldTraceFieldResolver\<close> accepts the node. For a call on a node that has a
  parent while the context has no \<open>getSpanByPath\<close>: under those two conditions the guard
  calls the missing method and the call throws a TypeError; otherwise the guard stops
  earlier and the call returns undefined. In both cases no span is opened and the
  context is left as it was. The guard does not throw when the node is top-level or the
  context carries the helpers.
\<close>

theorem guard_calls_missing_method:
  "(\<not> has_getSpanByPath ctx \<and> parent_path i \<noteq> None \<longrightarrow>
      fr_outcome (willResolveField this st source args ctx i)
        = (if requestSpan this \<noteq> None \<and> shouldTraceFieldResolver this source args ctx i
           then Inl (TypeError ''context.getSpanByPath is not a function'')
           else Inr None)
      \<and> fr_store (willResolveField this st source args ctx i) = st
      \<and> fr_context (willResolveField this st source args ctx i) = ctx)
   \<and> (parent_path i = None \<or> (has_getSpanByPath ctx \<and> SPANS ctx \<noteq> None) \<longrightarrow>
        \<not> isl (not_traced this source args ctx i))"
proof (rule conjI; rule impI)
  assume "\<not> has_getSpanByPath ctx \<and> parent_path i \<noteq> None"
  then show "fr_outcome (willResolveField this st source args ctx i)
        = (if requestSpan this \<noteq> None \<and> shouldTraceFieldResolver this source args ctx i
           then Inl (TypeError ''context.getSpanByPath is not a function'')
           else Inr None)
      \<and> fr_store (willResolveField this st source args ctx i) = st
      \<and> fr_context (willResolveField this st source args ctx i) = ctx"
    by (auto simp: willResolveField_def not_traced_def getSpanByPath_def)
next
  assume "parent_path i = None \<or> (has_getSpanByPath ctx \<and> SPANS ctx \<noteq> None)"
  then show "\<not> isl (not_traced this source args ctx i)"
    by (auto simp: not_traced_def getSpanByPath_def split: option.splits)
qed

theorem guard_calls_missing_method_witness:
  "fr_outcome (willResolveField ex_tracing ex_store () () ex_plain (ex_info ex_three))
     = Inl (TypeError ''context.getSpanByPath is not a function'')
   \<and> \<not> isl (not_traced ex_tracing () () ex_attached (ex_info ex_three))"
proof -
  have 1: "\<not> has_getSpanByPath ex_plain \<and> parent_path (ex_info ex_three) \<noteq> None"
    by (simp add: ex_plain_def parent_path_def ex_info_def ex_three_def)
  have 2: "has_getSpanByPath ex_attached \<and> SPANS ex_attached \<noteq> None"
    by (simp add: ex_attached_def)
  have 3: "requestSpan ex_tracing \<noteq> None
      \<and> shouldTraceFieldResolver ex_tracing () () ex_plain (ex_info ex_three)"
    by (simp add: ex_tracing_def ex_idle_def alwaysTrue_def)
  from guard_calls_missing_method [of ex_plain "ex_info ex_three" ex_tracing ex_store "()" "()"] 1 3
  have a: "fr_outcome (willResolveField ex_tracing ex_store () () ex_plain (ex_info ex_three))
     = Inl (TypeError ''context.getSpanByPath is not a function'')"
    by simp
  from guard_calls_missing_method [of ex_attached "ex_info ex_three" ex_tracing ex_store "()" "()"] 2
  have b: "\<not> isl (not_traced ex_tracing () () ex_attached (ex_info ex_three))"
    by simp
  from a b show ?thesis by (rule conjI)
qed

theorem guard_short_circuit_counterexample:
  "\<not> has_getSpanByPath ex_plain
   \<and> parent_path (ex_info ex_three) = Some ex_a
   \<and> willResolveField ex_idle ex_store () () ex_plain (ex_info ex_three)
       = \<lparr>fr_store = ex_store, fr_context = ex_plain, fr_info = ex_info ex_three,
          fr_outcome = Inr None\<rparr>"
  by (simp add: willResolveField_def not_traced_def ex_idle_def ex_plain_def parent_path_def
      ex_info_def ex_three_def)

section \<open>Properties of the request span\<close>

lemma not_traced_without_request_span:
  assumes "requestSpan this = None"
  shows "not_traced this source args ctx i = Inr True"
  using assms by (simp add: not_traced_def)

lemma visit_field_without_request_span:
  assumes "requestSpan this = None"
  shows "visit_field this w v
         = \<lparr>fr_store = fst w, fr_context = snd w, fr_info = v_info v, fr_outcome = Inr None\<rparr>"
  unfolding visit_field_def
  by (rule willResolveField_untraced) (rule not_traced_without_request_span [OF assms])

lemma run_without_request_span:
  assumes "requestSpan this = None"
  shows "exec this w vs = w
         \<and> (\<forall>r \<in> set (run this w vs). fr_store r = fst w \<and> fr_context r = snd w \<and> fr_outcome r = Inr None)"
  by (induction vs) (simp_all add: visit_field_without_request_span [OF assms])

lemma new_OpencensusExtension_Inr:
  assumes "new_OpencensusExtension opts = Inr this"
  shows "requestSpan this = None
         \<and> shouldTraceRequest this
             = (case opt_shouldTraceRequest opts of None \<Rightarrow> (\<lambda>infos. alwaysTrue infos) | Some f \<Rightarrow> f)"
  using assms by (auto simp: new_OpencensusExtension_def split: option.splits)

text \<open>
  C5 (as amended). For every request whose \<open>shouldTraceRequest\<close> returns false,
  \<open>requestDidStart\<close> returns undefined, starts no span and leaves the extension as it
  was. When the extension holds no request span at that moment (as the constructor
  leaves it), every later \<open>willResolveField\<close> call of the request, whatever the field
  predicate and the context, returns undefined, starts no span and leaves the context
  as it was. A refused request does not clear a request span that an earlier request
  left on the instance.
\<close>

theorem root_suppression_is_full_suppression:
  assumes "\<not> shouldTraceRequest this infos"
  shows "requestDidStart this st infos
           = \<lparr>rr_extension = this, rr_store = st, rr_outcome = Inr None\<rparr>
         \<and> (\<forall>opts. new_OpencensusExtension opts = Inr this \<longrightarrow> requestSpan this = None)
         \<and> (requestSpan this = None \<longrightarrow>
               exec (rr_extension (requestDidStart this st infos)) (st, ctx) vs = (st, ctx)
               \<and> (\<forall>r \<in> set (run (rr_extension (requestDidStart this st infos)) (st, ctx) vs).
                     fr_store r = st \<and> fr_context r = ctx \<and> fr_outcome r = Inr None))"
proof -
  from assms have r: "requestDidStart this st infos
      = \<lparr>rr_extension = this, rr_store = st, rr_outcome = Inr None\<rparr>"
    by (simp add: requestDidStart_def)
  have c: "\<forall>opts. new_OpencensusExtension opts = Inr this \<longrightarrow> requestSpan this = None"
    using new_OpencensusExtension_Inr by blast
  have v: "requestSpan this = None \<longrightarrow>
               exec (rr_extension (requestDidStart this st infos)) (st, ctx) vs = (st, ctx)
               \<and> (\<forall>r \<in> set (run (rr_extension (requestDidStart this st infos)) (st, ctx) vs).
                     fr_store r = st \<and> fr_context r = ctx \<and> fr_outcome r = Inr None)"
  proof
    assume n: "requestSpan this = None"
    from run_without_request_span [OF n, of "(st, ctx)" vs]
    show "exec (rr_extension (requestDidStart this st infos)) (st, ctx) vs = (st, ctx)
               \<and> (\<forall>r \<in> set (run (rr_extension (requestDidStart this st infos)) (st, ctx) vs).
                     fr_store r = st \<and> fr_context r = ctx \<and> fr_outcome r = Inr None)"
      by (simp add: r)
  qed
  from r c v show ?thesis by (intro conjI)
qed

theorem root_suppression_is_full_suppression_witness:
  "rr_outcome (requestDidStart (projr (new_OpencensusExtension ex_refusing_options)) ex_store ex_request)
     = Inr None
   \<and> map fr_outcome (run (rr_extension
           (requestDidStart (projr (new_OpencensusExtension ex_refusing_options)) ex_store ex_request))
         (ex_store, ex_plain) [ex_visit ex_a, ex_visit ex_three]) = [Inr None, Inr None]
   \<and> map fr_store (run (rr_extension
           (requestDidStart (projr (new_OpencensusExtension ex_refusing_options)) ex_store ex_request))
         (ex_store, ex_plain) [ex_visit ex_a, ex_visit ex_three]) = [ex_store, ex_store]"
proof -
  have 1: "requestSpan (projr (new_OpencensusExtension ex_refusing_options)) = None"
    by (simp add: new_OpencensusExtension_def ex_refusing_options_def)
  have 2: "\<not> shouldTraceRequest (projr (new_OpencensusExtension ex_refusing_options)) ex_request"
    by (simp add: new_OpencensusExtension_def ex_refusing_options_def)
  note t = root_suppression_is_full_suppression
    [OF 2, of ex_store ex_plain "[ex_visit ex_a, ex_visit ex_three]"]
  have r: "requestDidStart (projr (new_OpencensusExtension ex_refusing_options)) ex_store ex_request
      = \<lparr>rr_extension = projr (new_OpencensusExtension ex_refusing_options),
         rr_store = ex_store, rr_outcome = Inr None\<rparr>"
    using t by (rule conjunct1)
  have a: "rr_outcome
      (requestDidStart (projr (new_OpencensusExtension ex_refusing_options)) ex_store ex_request)
      = Inr None"
    by (simp only: r) simp
  have b: "\<forall>r \<in> set (run (rr_extension
           (requestDidStart (projr (new_OpencensusExtension ex_refusing_options)) ex_store ex_request))
         (ex_store, ex_plain) [ex_visit ex_a, ex_visit ex_three]).
        fr_store r = ex_store \<and> fr_context r = ex_plain \<and> fr_outcome r = Inr None"
    using t 1 by blast
  from b have c: "map fr_outcome (run (rr_extension
           (requestDidStart (projr (new_OpencensusExtension ex_refusing_options)) ex_store ex_request))
         (ex_store, ex_plain) [ex_visit ex_a, ex_visit ex_three]) = [Inr None, Inr None]"
    by auto
  from b have d: "map fr_store (run (rr_extension
           (requestDidStart (projr (new_OpencensusExtension ex_refusing_options)) ex_store ex_request))
         (ex_store, ex_plain) [ex_visit ex_a, ex_visit ex_three]) = [ex_store, ex_store]"
    by auto
  from a c d show ?thesis by (intro conjI)
qed

lemma ex_reused_value:
  "ex_reused
   = (ex_choosy\<lparr>requestSpan := Some 0\<rparr>,
      [\<lparr>options = \<lparr>name = ''request'', kind = SERVER, spanContext = None\<rparr>,
        links = [], ended = True\<rparr>])"
  by (simp add: ex_reused_def requestDidStart_def ex_choosy_def ex_idle_def ex_request_def
      emptyFunction_def startRootSpan_def end_span_def Let_def)

lemma ex_reused_refuses:
  "requestDidStart (fst ex_reused) (snd ex_reused) ex_refused_request
   = \<lparr>rr_extension = fst ex_reused, rr_store = snd ex_reused, rr_outcome = Inr None\<rparr>"
  by (simp add: ex_reused_value requestDidStart_def ex_choosy_def ex_refused_request_def)

lemma ex_reused_visit:
  "willResolveField (ex_choosy\<lparr>requestSpan := Some 0\<rparr>)
     [\<lparr>options = \<lparr>name = ''request'', kind = SERVER, spanContext = None\<rparr>,
        links = [], ended = True\<rparr>] () () ex_plain (ex_info ex_a)
   = \<lparr>fr_store =
        [\<lparr>options = \<lparr>name = ''request'', kind = SERVER, spanContext = None\<rparr>,
          links = [], ended = True\<rparr>,
         \<lparr>options = \<lparr>name = ''field'', kind = SERVER, spanContext = Some (OfSpan 0)\<rparr>,
          links = [0], ended = False\<rparr>],
      fr_context = ex_attached\<lparr>SPANS := Some [''a'' \<mapsto> 1]\<rparr>,
      fr_info = (ex_info ex_a)\<lparr>span := Some 1\<rparr>,
      fr_outcome = Inr (Some (FieldFinish 1))\<rparr>"
  by (simp add: willResolveField_def not_traced_def ex_choosy_def ex_idle_def
      alwaysTrue_def parent_path_def ex_info_def addContextHelpers_def isSpanContext_def
      ex_plain_def ex_attached_def getFieldName_def startRootSpan_def addLink_def
      addSpan_def Let_def ex_a_def buildPath_top)

theorem root_suppression_reused_counterexample:
  "rr_outcome (requestDidStart (fst ex_reused) (snd ex_reused) ex_refused_request) = Inr None
   \<and> fr_outcome (willResolveField
        (rr_extension (requestDidStart (fst ex_reused) (snd ex_reused) ex_refused_request))
        (rr_store (requestDidStart (fst ex_reused) (snd ex_reused) ex_refused_request))
        () () ex_plain (ex_info ex_a))
       = Inr (Some (FieldFinish 1))
   \<and> length (fr_store (willResolveField
        (rr_extension (requestDidStart (fst ex_reused) (snd ex_reused) ex_refused_request))
        (rr_store (requestDidStart (fst ex_reused) (snd ex_reused) ex_refused_request))
        () () ex_plain (ex_info ex_a))) = 2"
  by (simp only: ex_reused_refuses) (simp add: ex_reused_value ex_reused_visit)

lemma willResolveField_top_level:
  assumes "not_traced this source args ctx i = Inr False" and "parent_path i = None"
  shows "length (fr_store (willResolveField this st source args ctx i)) = Suc (length st)
         \<and> fr_store (willResolveField this st source args ctx i) ! length st
           = \<lparr>options = \<lparr>name = getFieldName i, kind = SERVER,
                          spanContext = map_option OfSpan (requestSpan this)\<rparr>,
              links = (case requestSpan this of None \<Rightarrow> [] | Some root \<Rightarrow> [root]),
              ended = False\<rparr>"
  using assms
  by (auto simp: willResolveField_def Let_def startRootSpan_def addLink_def nth_append
      split: sum.splits option.splits hook_result.splits)

text \<open>
  C10. When the request is traced, the closure returned by \<open>requestDidStart\<close> ends the
  root span and changes nothing else: afterwards the extension still holds the ended
  root span in \<open>requestSpan\<close>, so the guard of every later \<open>willResolveField\<close> call on
  the same instance no longer depends on the request span, and a top-level field that
  the field predicate accepts gets a new span linked to the ended root span.
\<close>

theorem request_finish_keeps_request_span:
  assumes "shouldTraceRequest this infos"
    and "onRequestResolve this (length st) infos = Returns"
    and "after = call_request_finish (RequestFinish (length st))
           (rr_extension (requestDidStart this st infos), rr_store (requestDidStart this st infos))"
  shows "rr_outcome (requestDidStart this st infos) = Inr (Some (RequestFinish (length st)))
         \<and> fst after = rr_extension (requestDidStart this st infos)
         \<and> snd after = end_span (rr_store (requestDidStart this st infos)) (length st)
         \<and> is_ended (snd after) (length st)
         \<and> requestSpan (fst after) = Some (length st)
         \<and> not_traced (fst after) source args ctx i
            = (if \<not> shouldTraceFieldResolver this source args ctx i then Inr True
               else case parent_path i of
                      None \<Rightarrow> Inr False
                    | Some pp \<Rightarrow>
                        (case getSpanByPath ctx pp of
                           Inl e \<Rightarrow> Inl e
                         | Inr found \<Rightarrow> Inr (found = None)))
         \<and> (shouldTraceFieldResolver this source args ctx i \<and> parent_path i = None \<longrightarrow>
               length (fr_store (willResolveField (fst after) st' source args ctx i)) = Suc (length st')
               \<and> links (fr_store (willResolveField (fst after) st' source args ctx i) ! length st')
                   = [length st])"
proof -
  let ?r = "requestDidStart this st infos"
  from assms(1,2) have r: "?r = \<lparr>rr_extension = this\<lparr>requestSpan := Some (length st)\<rparr>,
      rr_store = st @ [\<lparr>options = \<lparr>name = ''request'', kind = SERVER,
          spanContext = (case request infos of
                 None \<Rightarrow> None
               | Some r \<Rightarrow>
                   (case headers r of
                      None \<Rightarrow> None
                    | Some h \<Rightarrow> propagation_extract (tracer this) (\<lambda>n. h n)))\<rparr>,
        links = [], ended = False\<rparr>],
      rr_outcome = Inr (Some (RequestFinish (length st)))\<rparr>"
    by (simp add: requestDidStart_def Let_def startRootSpan_def)
  from assms(3) have a: "after = (rr_extension ?r, end_span (rr_store ?r) (length st))"
    by simp
  have e: "is_ended (end_span (rr_store ?r) (length st)) (length st)"
    by (rule end_span_ended) (simp add: r)
  have q: "requestSpan (rr_extension ?r) = Some (length st)" by (simp add: r)
  have f: "shouldTraceFieldResolver (rr_extension ?r) = shouldTraceFieldResolver this"
    by (simp add: r)
  have g: "not_traced (rr_extension ?r) source args ctx i
            = (if \<not> shouldTraceFieldResolver this source args ctx i then Inr True
               else case parent_path i of
                      None \<Rightarrow> Inr False
                    | Some pp \<Rightarrow>
                        (case getSpanByPath ctx pp of
                           Inl e \<Rightarrow> Inl e
                         | Inr found \<Rightarrow> Inr (found = None)))"
    by (simp add: not_traced_def q f)
  have t: "shouldTraceFieldResolver this source args ctx i \<and> parent_path i = None \<longrightarrow>
               length (fr_store (willResolveField (rr_extension ?r) st' source args ctx i)) = Suc (length st')
               \<and> links (fr_store (willResolveField (rr_extension ?r) st' source args ctx i) ! length st')
                   = [length st]"
  proof
    assume h: "shouldTraceFieldResolver this source args ctx i \<and> parent_path i = None"
    with g have "not_traced (rr_extension ?r) source args ctx i = Inr False" by simp
    from willResolveField_top_level [OF this, of st'] h q
    show "length (fr_store (willResolveField (rr_extension ?r) st' source args ctx i)) = Suc (length st')
               \<and> links (fr_store (willResolveField (rr_extension ?r) st' source args ctx i) ! length st')
                   = [length st]"
      by simp
  qed
  have o: "rr_outcome ?r = Inr (Some (RequestFinish (length st)))" by (simp add: r)
  from o e q g t show ?thesis by (simp only: a fst_conv snd_conv)
qed

theorem request_finish_keeps_request_span_witness:
  "requestSpan (fst (call_request_finish (RequestFinish 0)
       (rr_extension (requestDidStart ex_idle [] ex_request),
        rr_store (requestDidStart ex_idle [] ex_request)))) = Some 0
   \<and> is_ended (snd (call_request_finish (RequestFinish 0)
       (rr_extension (requestDidStart ex_idle [] ex_request),
        rr_store (requestDidStart ex_idle [] ex_request)))) 0
   \<and> length (fr_store (willResolveField (fst (call_request_finish (RequestFinish 0)
       (rr_extension (requestDidStart ex_idle [] ex_request),
        rr_store (requestDidStart ex_idle [] ex_request)))) ex_store () () ex_plain (ex_info ex_a))) = 2"
proof -
  have 1: "shouldTraceRequest ex_idle ex_request"
    by (simp add: ex_idle_def alwaysTrue_def)
  have 2: "onRequestResolve ex_idle (length ([] :: store)) ex_request = Returns"
    by (simp add: ex_idle_def emptyFunction_def)
  have 3: "call_request_finish (RequestFinish 0)
       (rr_extension (requestDidStart ex_idle [] ex_request),
        rr_store (requestDidStart ex_idle [] ex_request))
     = call_request_finish (RequestFinish (length ([] :: store)))
       (rr_extension (requestDidStart ex_idle [] ex_request),
        rr_store (requestDidStart ex_idle [] ex_request))"
    by simp
  have 4: "shouldTraceFieldResolver ex_idle () () ex_plain (ex_info ex_a)
      \<and> parent_path (ex_info ex_a) = None"
    by (simp add: ex_idle_def alwaysTrue_def parent_path_def ex_info_def ex_a_def)
  have 5: "length ex_store = 1" by (simp add: ex_store_def)
  from request_finish_keeps_request_span [OF 1 2 3, of "()" "()" ex_plain "ex_info ex_a" ex_store] 4 5
  show ?thesis by simp
qed

section \<open>Path keys of valid chains are unique\<close>

lemma valid_key_segment:
  assumes "valid_key k"
  shows "\<exists>s. key_segment k = Some s \<and> s \<noteq> [] \<and> CHR ''.'' \<notin> set s"
  using assms by (cases k) (simp_all add: string_of_nat_no_dot)

lemma key_segment_inj:
  assumes "valid_key k" and "valid_key k'" and "key_segment k = key_segment k'"
  shows "k = k'"
proof (cases k)
  case (KStr s)
  with assms show ?thesis by (cases k') auto
next
  case (KNum n)
  with assms show ?thesis by (cases k') (auto dest: string_of_nat_inj)
next
  case KUndef
  with assms show ?thesis by simp
qed

lemma valid_chain_keys: "valid_chain p = (\<forall>k \<in> set (chain_keys p). valid_key k)"
  by (induction p rule: chain_keys.induct) auto

lemma chain_keys_inj: "chain_keys p = chain_keys q \<Longrightarrow> p = q"
proof (induction p arbitrary: q rule: chain_keys.induct)
  case 1
  then show ?case by (cases q rule: chain_keys.cases) simp_all
next
  case (2 k p)
  then show ?case by (cases q rule: chain_keys.cases) auto
qed

lemma map_key_segment_inj:
  assumes "\<forall>k \<in> set ks. valid_key k" and "\<forall>k \<in> set ks'. valid_key k"
    and "map key_segment ks = map key_segment ks'"
  shows "ks = ks'"
  using assms
proof (induction ks arbitrary: ks')
  case Nil
  then show ?case by simp
next
  case (Cons k ks)
  from Cons.prems(3) obtain k' ks'' where ks': "ks' = k' # ks''" by (cases ks') auto
  with Cons.prems have "key_segment k = key_segment k'" "map key_segment ks = map key_segment ks''"
    "valid_key k" "valid_key k'" by simp_all
  with Cons.IH [of ks''] Cons.prems(1,2) ks' show ?case
    by (auto dest: key_segment_inj)
qed

lemma buildPath_inj:
  assumes "valid_chain p" and "valid_chain q" and "buildPath p = buildPath q"
  shows "p = q"
proof -
  let ?xs = "rev (map key_segment (chain_keys p))" and ?ys = "rev (map key_segment (chain_keys q))"
  have x: "\<forall>x\<in>set ?xs. \<exists>s. x = Some s \<and> s \<noteq> [] \<and> CHR ''.'' \<notin> set s"
    using assms(1) by (auto simp: valid_chain_keys dest: valid_key_segment)
  have y: "\<forall>y\<in>set ?ys. \<exists>s. y = Some s \<and> s \<noteq> [] \<and> CHR ''.'' \<notin> set s"
    using assms(2) by (auto simp: valid_chain_keys dest: valid_key_segment)
  from assms(3) have "join ''.'' ?xs = join ''.'' ?ys"
    by (simp add: buildPath_def segments_chain_keys)
  from join_dot_inj [OF x y this] have "map key_segment (chain_keys p) = map key_segment (chain_keys q)"
    by simp
  with assms(1,2) have "chain_keys p = chain_keys q"
    by (intro map_key_segment_inj) (simp_all add: valid_chain_keys)
  then show ?thesis by (rule chain_keys_inj)
qed

section \<open>Suppression below an untraced node\<close>

lemma lookup_at_or_below:
  assumes "at_or_below (Some pp) n" and "field_node n" and "valid_chain (Some pp)"
  shows "at_or_below (if isArrayPath pp then prev pp else Some pp) n
         \<and> valid_chain (if isArrayPath pp then prev pp else Some pp)"
proof (cases pp)
  case (Path k p)
  show ?thesis
  proof (cases k)
    case (KNum j)
    with Path assms(2) have "pp \<noteq> n" by (cases n rule: field_node.cases) auto
    with Path KNum assms(1,3) show ?thesis by auto
  next
    case (KStr s)
    with Path assms(1,3) show ?thesis by simp
  next
    case KUndef
    with Path assms(1,3) show ?thesis by simp
  qed
qed

lemma not_traced_below:
  assumes "unregistered_below ctx n" and "field_node n"
    and "parent_path i = Some pp" and "at_or_below (Some pp) n" and "valid_chain (Some pp)"
  shows "not_traced this source args ctx i \<noteq> Inr False"
proof -
  from lookup_at_or_below [OF assms(4) assms(2) assms(5)] assms(1)
  have "registered ctx (buildPath (if isArrayPath pp then prev pp else Some pp)) = None"
    unfolding unregistered_below_def by blast
  then have "\<forall>found. getSpanByPath ctx pp = Inr found \<longrightarrow> found = None"
    by (auto simp: getSpanByPath_def registered_def split: if_splits option.splits)
  then show ?thesis
    using assms(3) by (auto simp: not_traced_def split: sum.splits)
qed

lemma valid_chain_parent:
  assumes "valid_chain (path i)" and "parent_path i = Some pp"
  shows "valid_chain (Some pp)"
proof -
  from assms(2) obtain k where "path i = Some (Path k (Some pp))"
    by (cases "path i"; cases "the (path i)") (auto simp: parent_path_def)
  with assms(1) show ?thesis by simp
qed

lemma willResolveField_keeps_unregistered:
  assumes inv: "unregistered_below ctx n" and n: "field_node n"
    and v: "valid_chain (path i)"
    and refused: "path i = Some n \<longrightarrow> \<not> shouldTraceFieldResolver this source args ctx i"
  shows "unregistered_below (fr_context (willResolveField this st source args ctx i)) n"
  unfolding unregistered_below_def
proof (intro allI impI)
  fix q
  assume q: "at_or_below q n \<and> valid_chain q"
  show "registered (fr_context (willResolveField this st source args ctx i)) (buildPath q) = None"
  proof (rule ccontr)
    assume "registered (fr_context (willResolveField this st source args ctx i)) (buildPath q) \<noteq> None"
    from willResolveField_registers [OF this] inv q
    have k: "buildPath q = buildPath (path i)" and t: "not_traced this source args ctx i = Inr False"
      unfolding unregistered_below_def by auto
    from buildPath_inj [OF _ v k] q have qi: "path i = q" by simp
    with q have "at_or_below (path i) n" by simp
    then obtain k' p where p: "path i = Some (Path k' p)"
      by (cases "path i"; cases "the (path i)") auto
    show False
    proof (cases "Path k' p = n")
      case True
      with p refused have "\<not> shouldTraceFieldResolver this source args ctx i" by simp
      then have "not_traced this source args ctx i = Inr True" by (simp add: not_traced_def)
      with t show False by simp
    next
      case False
      with q qi p have b: "at_or_below p n" by auto
      then obtain pp where pp: "p = Some pp" by (cases p) auto
      with p have par: "parent_path i = Some pp" by (simp add: parent_path_def)
      from b pp have "at_or_below (Some pp) n" by simp
      from not_traced_below [where this = this and source = source and args = args,
          OF inv n par this valid_chain_parent [OF v par]] t
      show False by simp
    qed
  qed
qed

lemma exec_keeps_unregistered:
  assumes "unregistered_below (snd w) n" and "field_node n"
    and "\<forall>v \<in> set vs. valid_chain (path (v_info v))"
    and "\<forall>v \<in> set vs. path (v_info v) = Some n \<longrightarrow>
           (\<forall>c. \<not> shouldTraceFieldResolver this (v_source v) (v_args v) c (v_info v))"
  shows "unregistered_below (snd (exec this w vs)) n"
  using assms
proof (induction vs arbitrary: w)
  case Nil
  then show ?case by simp
next
  case (Cons v vs)
  have "unregistered_below (fr_context (visit_field this w v)) n"
    unfolding visit_field_def
    using Cons.prems by (intro willResolveField_keeps_unregistered) auto
  with Cons.IH [of "(fr_store (visit_field this w v), fr_context (visit_field this w v))"] Cons.prems
  show ?case by simp
qed

text \<open>
  C4. Let \<open>n\<close> be a field node for which \<open>shouldTraceFieldResolver\<close> returns false
  whenever it is visited, in a request whose registry holds nothing at or below \<open>n\<close>
  at its start (as with a fresh context), the keys of all visited paths being GraphQL
  names and list indices. Then after any sequence of visits \<open>vs\<close>, the visit of a
  descendant \<open>m\<close> of \<open>n\<close> opens no span, registers nothing in the context and
  returns no finish action (it returns undefined, or throws where the context has no
  helpers at all).
\<close>

theorem suppression_propagates:
  assumes "field_node n"
    and "unregistered_below ctx n"
    and "\<forall>v \<in> set vs. valid_chain (path (v_info v))"
    and "\<forall>v \<in> set vs. path (v_info v) = Some n \<longrightarrow>
           (\<forall>c. \<not> shouldTraceFieldResolver this (v_source v) (v_args v) c (v_info v))"
    and "valid_chain (path (v_info m))"
    and "at_or_below (parent_path (v_info m)) n"
  shows "fr_store (visit_field this (exec this (st, ctx) vs) m) = fst (exec this (st, ctx) vs)
         \<and> fr_context (visit_field this (exec this (st, ctx) vs) m) = snd (exec this (st, ctx) vs)
         \<and> (\<forall>fin. fr_outcome (visit_field this (exec this (st, ctx) vs) m) \<noteq> Inr (Some fin))"
proof -
  let ?w = "exec this (st, ctx) vs"
  have inv: "unregistered_below (snd ?w) n"
    using assms(2,1,3,4) by (intro exec_keeps_unregistered) simp_all
  from assms(6) obtain pp where pp: "parent_path (v_info m) = Some pp"
    by (cases "parent_path (v_info m)") auto
  from assms(6) pp have "at_or_below (Some pp) n" by simp
  from not_traced_below [where this = this and source = "v_source m" and args = "v_args m",
      OF inv assms(1) pp this valid_chain_parent [OF assms(5) pp]]
  have "not_traced this (v_source m) (v_args m) (snd ?w) (v_info m) \<noteq> Inr False" .
  from willResolveField_not_traced [OF this, of "fst ?w"] show ?thesis
    by (simp add: visit_field_def)
qed


theorem suppression_propagates_witness:
  "fr_store (visit_field ex_selective
       (exec ex_selective (ex_store, ex_plain) [ex_visit ex_b, ex_visit ex_a]) (ex_visit ex_three))
     = fst (exec ex_selective (ex_store, ex_plain) [ex_visit ex_b, ex_visit ex_a])
   \<and> fr_context (visit_field ex_selective
       (exec ex_selective (ex_store, ex_plain) [ex_visit ex_b, ex_visit ex_a]) (ex_visit ex_three))
     = snd (exec ex_selective (ex_store, ex_plain) [ex_visit ex_b, ex_visit ex_a])
   \<and> (\<forall>fin. fr_outcome (visit_field ex_selective
       (exec ex_selective (ex_store, ex_plain) [ex_visit ex_b, ex_visit ex_a]) (ex_visit ex_three))
     \<noteq> Inr (Some fin))"
proof -
  have 1: "field_node ex_a" by (simp add: ex_a_def)
  have 2: "unregistered_below ex_plain ex_a"
    by (simp add: unregistered_below_def registered_def ex_plain_def)
  have 3: "\<forall>v \<in> set [ex_visit ex_b, ex_visit ex_a]. valid_chain (path (v_info v))"
    by (simp add: ex_visit_def ex_info_def ex_a_def ex_b_def)
  have 4: "\<forall>v \<in> set [ex_visit ex_b, ex_visit ex_a]. path (v_info v) = Some ex_a \<longrightarrow>
      (\<forall>c. \<not> shouldTraceFieldResolver ex_selective (v_source v) (v_args v) c (v_info v))"
    by (simp add: ex_visit_def ex_info_def ex_selective_def)
  have 5: "valid_chain (path (v_info (ex_visit ex_three)))"
    by (simp add: ex_visit_def ex_info_def ex_three_def ex_a_def)
  have 6: "at_or_below (parent_path (v_info (ex_visit ex_three))) ex_a"
    by (simp add: ex_visit_def ex_info_def ex_three_def ex_a_def parent_path_def)
  show ?thesis by (rule suppression_propagates [OF 1 2 3 4 5 6])
qed

end
